theory Spec2Isabelle
  imports Main "HOL-Library.Word"
begin

unbundle bit_operations_syntax

section \<open>Data model of codec/frame/varint_length.go\<close>

text \<open>
  Go's \<open>byte\<close> and \<open>uint64\<close> are 8-bit and 64-bit words. Go's \<open>int\<close> is taken at its
  64-bit width: a value of type \<open>int\<close> that is stored or converted is a 64-bit word read
  in two's complement by \<open>sint\<close>, so \<open>uint64(i)\<close> keeps the bits of \<open>i\<close> and
  \<open>int(u)\<close> is \<open>sint u\<close>. Lengths of slices and the byte count returned by
  \<open>binary.Uvarint\<close> are small integers (a slice is shorter than \<open>2 ^ 63\<close> bytes, the
  count lies between \<open>-11\<close> and \<open>10\<close>); they are written as HOL integers, so
  \<open>len(r) - n\<close> is the plain difference.
\<close>

type_synonym byte = "8 word"
type_synonym uint64 = "64 word"
type_synonym go_int = "64 word"

text \<open>
  Every \<open>utils.Assert\<close>, \<open>utils.AssertIf\<close> and \<open>utils.AssertBytes\<close> of the source
  stops the handler with an error; so does a runtime panic. The errors are values:
  the three of package \<open>io\<close> and \<open>encoding/binary\<close> that a varint read can report,
  any other error of a reader (numbered), the formatted messages of the source, and the
  two runtime panics of indexing and slicing.
\<close>

datatype error =
    EOF
  | ErrUnexpectedEOF
  | ErrOverflow
  | ReaderError nat
  | MaxFrameLengthNotPositive
  | FrameTooLarge
  | IncompletePacket
  | UnrecognizedType string
  | IndexOutOfRange
  | SliceOutOfRange

text \<open>
  The spec's \<open>MalformedVarint\<close> condition: the prefix bytes do not terminate within the
  maximum width (\<open>ErrOverflow\<close>) or the source ends inside or before the prefix.
\<close>

fun MalformedVarint :: "error \<Rightarrow> bool" where
  "MalformedVarint ErrOverflow = True"
| "MalformedVarint ErrUnexpectedEOF = True"
| "MalformedVarint EOF = True"
| "MalformedVarint _ = False"

text \<open>
  An \<open>io.Reader\<close>: the bytes it will still deliver, and the error it reports once they
  are used up (\<open>EOF\<close> for a source that ends normally).
\<close>

record reader =
  pending :: "byte list"
  closing :: error

text \<open>
  \<open>netty.Message\<close> is an empty interface; the handlers switch on its dynamic type.
  \<open>Other t\<close> is a value of any other type, \<open>t\<close> the type's name as \<open>%T\<close> prints it.
\<close>

datatype message =
    Reader reader
  | Bytes "byte list"
  | Other string

text \<open>
  What \<open>HandleRead\<close> hands to \<open>ctx.HandleRead\<close>: \<open>io.LimitReader(r, n)\<close>, a reader
  over the same underlying source with at most \<open>n\<close> bytes left to give, or
  \<open>bytes.NewReader(b)\<close> over a slice.
\<close>

datatype payload =
    LimitedReader reader int
  | BytesReader "byte list"

record varintLengthFieldCodec =
  maxFrameLength :: go_int

definition VarintLengthFieldCodec :: "go_int \<Rightarrow> error + varintLengthFieldCodec" where
  "VarintLengthFieldCodec m =
     (if sint m \<le> 0 then Inl MaxFrameLengthNotPositive
      else Inr \<lparr>maxFrameLength = m\<rparr>)"

definition CodecName :: "varintLengthFieldCodec \<Rightarrow> string" where
  "CodecName v = ''varint-length-field-codec''"

section \<open>Varints of encoding/binary\<close>

definition MaxVarintLen64 :: nat where
  "MaxVarintLen64 = 10"

text \<open>
  Modelled from the spec: \<open>binary.PutUvarint\<close> is not under src/ (it is the Go
  library's). Section 4.1 and 6 of the spec describe it: each byte carries 7 value bits,
  low group first, with the high bit set on every byte but the last. The loop is the
  library's: while \<open>x >= 0x80\<close> it stores \<open>byte(x) | 0x80\<close> at \<open>buf[i]\<close> and shifts
  \<open>x\<close> right by 7; then it stores \<open>byte(x)\<close> and returns \<open>i + 1\<close>. A store past the
  end of \<open>buf\<close> panics: \<open>None\<close>.
\<close>

function PutUvarint_loop :: "byte list \<Rightarrow> uint64 \<Rightarrow> nat \<Rightarrow> (byte list \<times> nat) option" where
  "PutUvarint_loop buf x i =
     (if 0x80 \<le> x then
        (if i < length buf
         then PutUvarint_loop (buf[i := ucast x OR 0x80]) (drop_bit 7 x) (i + 1)
         else None)
      else
        (if i < length buf then Some (buf[i := ucast x], i + 1) else None))"
  by pat_completeness auto
termination
proof (relation "measure (\<lambda>(buf, x, i). unat x)")
  show "wf (measure (\<lambda>(buf, x, i). unat x))" by simp
next
  fix buf :: "byte list" and x :: uint64 and i :: nat
  assume "0x80 \<le> x"
  then have "128 \<le> unat x" by (simp add: word_le_nat_alt)
  then have "unat x div 128 < unat x" by simp
  moreover have "unat (drop_bit 7 x) = unat x div 128"
    by (simp add: drop_bit_eq_div unat_div)
  ultimately show "((buf[i := ucast x OR 0x80], drop_bit 7 x, i + 1), (buf, x, i))
              \<in> measure (\<lambda>(buf, x, i). unat x)"
    by simp
qed

declare PutUvarint_loop.simps [simp del]

definition PutUvarint :: "byte list \<Rightarrow> uint64 \<Rightarrow> (byte list \<times> nat) option" where
  "PutUvarint buf x = PutUvarint_loop buf x 0"

text \<open>
  Modelled from the spec: \<open>binary.Uvarint\<close> is not under src/ (it is the Go library's).
  Section 4.1 of the spec describes it: bytes are read until one has the high bit clear,
  giving the value and the number of bytes read. The library reports a failure through
  the count: \<open>(0, 0)\<close> when the buffer ends before a terminating byte, \<open>(0, -(i + 1))\<close>
  when the value overflows 64 bits at byte \<open>i\<close>. The loop ranges over the buffer with
  index \<open>i\<close>, the value so far \<open>x\<close> and the shift \<open>s\<close>.
\<close>

fun Uvarint_loop :: "byte list \<Rightarrow> nat \<Rightarrow> uint64 \<Rightarrow> nat \<Rightarrow> uint64 \<times> int" where
  "Uvarint_loop [] i x s = (0, 0)"
| "Uvarint_loop (b # buf) i x s =
     (if i = MaxVarintLen64 then (0, - (int i + 1))
      else if b < 0x80 then
        (if i = MaxVarintLen64 - 1 \<and> 1 < b then (0, - (int i + 1))
         else (x OR push_bit s (ucast b), int i + 1))
      else Uvarint_loop buf (i + 1) (x OR push_bit s (ucast (b AND 0x7f))) (s + 7))"

definition Uvarint :: "byte list \<Rightarrow> uint64 \<times> int" where
  "Uvarint buf = Uvarint_loop buf 0 0 0"

text \<open>
  Modelled from the spec: \<open>utils.NewByteReader\<close> is not under src/. Section 4.2 of the
  spec has the prefix read directly from the stream, consuming exactly the prefix bytes:
  \<open>ReadByte\<close> takes one byte of the source, or reports the source's error.
\<close>

definition ReadByte :: "reader \<Rightarrow> (error + byte) \<times> reader" where
  "ReadByte r =
     (case pending r of
        [] \<Rightarrow> (Inl (closing r), r)
      | b # bs \<Rightarrow> (Inr b, r\<lparr>pending := bs\<rparr>))"

text \<open>
  Modelled from the spec: \<open>binary.ReadUvarint\<close> is not under src/ (it is the Go
  library's). Section 4.1 of the spec: it fails when no terminating byte is found within
  the maximum width, or when the source is exhausted in the middle of the prefix. The
  library's loop runs \<open>i\<close> from 0 below \<open>MaxVarintLen64\<close>; an \<open>EOF\<close> after the
  first byte becomes \<open>ErrUnexpectedEOF\<close>.
\<close>

function ReadUvarint_loop :: "reader \<Rightarrow> nat \<Rightarrow> uint64 \<Rightarrow> nat \<Rightarrow> (error + uint64) \<times> reader" where
  "ReadUvarint_loop r i x s =
     (if i < MaxVarintLen64 then
        (case ReadByte r of
           (Inl err, r') \<Rightarrow> (Inl (if 0 < i \<and> err = EOF then ErrUnexpectedEOF else err), r')
         | (Inr b, r') \<Rightarrow>
             if b < 0x80 then
               (if i = MaxVarintLen64 - 1 \<and> 1 < b then (Inl ErrOverflow, r')
                else (Inr (x OR push_bit s (ucast b)), r'))
             else ReadUvarint_loop r' (i + 1) (x OR push_bit s (ucast (b AND 0x7f))) (s + 7))
      else (Inl ErrOverflow, r))"
  by pat_completeness auto
termination
  by (relation "measure (\<lambda>(r, i, x, s). MaxVarintLen64 - i)") auto

declare ReadUvarint_loop.simps [simp del]

definition ReadUvarint :: "reader \<Rightarrow> (error + uint64) \<times> reader" where
  "ReadUvarint r = ReadUvarint_loop r 0 0 0"

section \<open>Readers of io and io/ioutil\<close>

text \<open>
  Modelled from the spec: \<open>ioutil.ReadAll\<close> is not under src/ (it is the Go library's).
  Section 4.3 of the spec: the source is fully drained into a new buffer, and the error
  of the drain is propagated. An \<open>EOF\<close> ends the drain without error.
\<close>

definition ReadAll :: "reader \<Rightarrow> error + byte list" where
  "ReadAll r = (if closing r = EOF then Inr (pending r) else Inl (closing r))"

text \<open>
  Go's slice expression \<open>r[n:]\<close> panics unless \<open>0 \<le> n \<le> len(r)\<close>.
\<close>

definition slice_from :: "byte list \<Rightarrow> int \<Rightarrow> byte list option" where
  "slice_from r n =
     (if 0 \<le> n \<and> n \<le> int (length r) then Some (drop (nat n) r) else None)"

text \<open>
  Modelled from the spec: reading a payload view to its end. Section 4.2 of the spec:
  the bounded view reads at most \<open>frameLength\<close> further bytes of the same stream and
  then signals end-of-data. \<open>drain\<close> gives the bytes a consumer obtains from the view
  and, for a view over a stream, the stream as the consumer leaves it.
\<close>

fun drain :: "payload \<Rightarrow> byte list \<times> reader option" where
  "drain (LimitedReader r n) =
     (take (nat n) (pending r), Some (r\<lparr>pending := drop (nat n) (pending r)\<rparr>))"
| "drain (BytesReader b) = (b, None)"

section \<open>The handlers\<close>

text \<open>
  \<open>HandleRead\<close>: the result is the error of the failed assertion, or the value passed
  to \<open>ctx.HandleRead\<close>. The type switch tries \<open>io.Reader\<close> first, then \<open>[]byte\<close>.
\<close>

definition HandleRead :: "varintLengthFieldCodec \<Rightarrow> message \<Rightarrow> error + payload" where
  "HandleRead v message =
     (case message of
        Reader r \<Rightarrow>
          (case ReadUvarint r of
             (Inl err, r') \<Rightarrow> Inl err
           | (Inr frameLength, r') \<Rightarrow>
               if maxFrameLength v < frameLength then Inl FrameTooLarge
               else Inr (LimitedReader r' (sint frameLength)))
      | Bytes r \<Rightarrow>
          (case Uvarint r of
             (frameLength, n) \<Rightarrow>
               if maxFrameLength v < frameLength then Inl FrameTooLarge
               else if sint frameLength \<noteq> int (length r) - n then Inl IncompletePacket
               else (case slice_from r n of
                       None \<Rightarrow> Inl SliceOutOfRange
                     | Some rest \<Rightarrow> Inr (BytesReader rest)))
      | Other t \<Rightarrow> Inl (UnrecognizedType t))"

text \<open>
  \<open>HandleWrite\<close>: the result is the error of the failed assertion, or the list of
  segments passed to \<open>ctx.HandleWrite\<close>. The type switch tries \<open>[]byte\<close> first, then
  \<open>io.Reader\<close>. The header is encoded into a zeroed array of \<open>MaxVarintLen64\<close> bytes.
\<close>

definition bodyBytes_of :: "message \<Rightarrow> error + byte list" where
  "bodyBytes_of message =
     (case message of
        Bytes r \<Rightarrow> Inr r
      | Reader r \<Rightarrow> ReadAll r
      | Other t \<Rightarrow> Inl (UnrecognizedType t))"

definition HandleWrite :: "varintLengthFieldCodec \<Rightarrow> message \<Rightarrow> error + byte list list" where
  "HandleWrite v message =
     (case bodyBytes_of message of
        Inl err \<Rightarrow> Inl err
      | Inr bodyBytes \<Rightarrow>
          if sint (maxFrameLength v) < int (length bodyBytes) then Inl FrameTooLarge
          else
            (case PutUvarint (replicate MaxVarintLen64 0) (word_of_nat (length bodyBytes)) of
               None \<Rightarrow> Inl IndexOutOfRange
             | Some (head, n) \<Rightarrow> Inr [take n head, bodyBytes]))"

section \<open>Auxiliary definitions for the proofs\<close>

text \<open>
  The bytes that the loop of \<open>PutUvarint\<close> stores for \<open>x\<close>, as a list: the same
  test and the same two stores, without the buffer. It is used to state what
  \<open>PutUvarint_loop\<close> leaves in the buffer (lemma \<open>PutUvarint_loop_stores\<close>); the
  theorems about the codec are stated on \<open>PutUvarint\<close> itself.
\<close>

function varint_bytes :: "uint64 \<Rightarrow> byte list" where
  "varint_bytes x =
     (if 0x80 \<le> x then (ucast x OR 0x80) # varint_bytes (drop_bit 7 x) else [ucast x])"
  by pat_completeness auto
termination
proof (relation "measure unat")
  show "wf (measure unat)" by simp
next
  fix x :: uint64
  assume "0x80 \<le> x"
  then have "128 \<le> unat x" by (simp add: word_le_nat_alt)
  then have "unat x div 128 < unat x" by simp
  moreover have "unat (drop_bit 7 x) = unat x div 128"
    by (simp add: drop_bit_eq_div unat_div)
  ultimately show "(drop_bit 7 x, x) \<in> measure unat" by simp
qed

declare varint_bytes.simps [simp del]

text \<open>The payload of the spec's concrete scenario, \<open>b"hello"\<close>.\<close>

definition hello :: "byte list" where
  "hello = [0x68, 0x65, 0x6c, 0x6c, 0x6f]"

text \<open>The codec of the spec's second scenario, \<open>maxFrameLength = 100\<close>.\<close>

definition codec100 :: varintLengthFieldCodec where
  "codec100 = \<lparr>maxFrameLength = 100\<rparr>"

section \<open>Bytes of a varint\<close>

lemma bit_0x80: "bit (0x80 :: int) n \<longleftrightarrow> n = 7"
  using bit_exp_iff [of 7 n, where ?'a = int] by auto

lemma bit_0x7f: "bit (0x7f :: int) n \<longleftrightarrow> n < 7"
  using bit_mask_iff [of 7 n, where ?'a = int] by (auto simp: mask_eq_exp_minus_1)

lemma and_0x7f: "(x :: uint64) AND 0x7f = take_bit 7 x"
  by (rule bit_word_eqI) (auto simp: bit_simps bit_0x7f)

lemma uint64_lt_0x80_iff: "(x :: uint64) < 0x80 \<longleftrightarrow> take_bit 7 x = x"
proof -
  have "x < 0x80 \<longleftrightarrow> uint x < 2 ^ 7"
    by (simp add: word_less_alt)
  also have "\<dots> \<longleftrightarrow> x AND mask 7 = x"
    by (simp only: mask_eq_iff)
  finally show ?thesis
    by (simp add: take_bit_eq_mask)
qed

lemma byte_lt_0x80_iff: "(x :: byte) < 0x80 \<longleftrightarrow> take_bit 7 x = x"
proof -
  have "x < 0x80 \<longleftrightarrow> uint x < 2 ^ 7"
    by (simp add: word_less_alt)
  also have "\<dots> \<longleftrightarrow> x AND mask 7 = x"
    by (simp only: mask_eq_iff)
  finally show ?thesis
    by (simp add: take_bit_eq_mask)
qed

lemma byte_lt_0x80: "(b :: byte) < 0x80 \<longleftrightarrow> \<not> bit b 7"
proof -
  have "take_bit 7 b = b \<longleftrightarrow> \<not> bit b 7"
  proof
    assume "take_bit 7 b = b"
    then have "bit b 7 = bit (take_bit 7 b) 7" by simp
    then show "\<not> bit b 7" by (simp add: bit_simps)
  next
    assume h: "\<not> bit b 7"
    show "take_bit 7 b = b"
    proof (rule bit_word_eqI)
      fix n assume "n < LENGTH(8)"
      then have "n < 7 \<or> n = 7" by auto
      then show "bit (take_bit 7 b) n = bit b n"
        using h by (auto simp: bit_simps)
    qed
  qed
  then show ?thesis by (simp add: byte_lt_0x80_iff)
qed

lemma cont_byte_high: "bit (ucast (x :: uint64) OR (0x80 :: byte)) 7"
  by (simp add: bit_simps bit_0x80)

lemma last_byte_low: "x < 0x80 \<Longrightarrow> \<not> bit (ucast (x :: uint64) :: byte) 7"
proof -
  assume "x < 0x80"
  then have "take_bit 7 x = x" by (simp add: uint64_lt_0x80_iff)
  then have "bit x 7 = bit (take_bit 7 x) 7" by simp
  then show ?thesis by (simp add: bit_simps)
qed

lemma cont_byte_value: "ucast ((ucast (x :: uint64) OR (0x80 :: byte)) AND 0x7f) = x AND (0x7f :: uint64)"
  by (rule bit_word_eqI) (auto simp: bit_simps bit_0x80 bit_0x7f)

lemma last_byte_value: "x < 0x80 \<Longrightarrow> ucast (ucast (x :: uint64) :: byte) = x"
proof -
  assume "x < 0x80"
  then have e: "take_bit 7 x = x" by (simp add: uint64_lt_0x80_iff)
  have "ucast (ucast (take_bit 7 x) :: byte) = take_bit 7 x"
    by (rule bit_word_eqI) (auto simp: bit_simps)
  then show ?thesis by (simp add: e)
qed

lemma regroup: "push_bit s (x AND 0x7f) OR push_bit (s + 7) (drop_bit 7 x) = push_bit s (x :: uint64)"
proof (rule bit_word_eqI)
  fix n assume "n < LENGTH(64)"
  have *: "7 \<le> n - s \<Longrightarrow> 7 + (n - (s + 7)) = n - s" by arith
  show "bit (push_bit s (x AND 0x7f) OR push_bit (s + 7) (drop_bit 7 x)) n = bit (push_bit s x) n"
    by (cases "n - s < 7") (auto simp: bit_simps bit_0x7f * not_less)
qed


lemma unat_drop_bit_7: "unat (drop_bit 7 (x :: uint64)) = unat x div 128"
  by (simp add: drop_bit_eq_div unat_div)

lemma varint_bytes_length_pos: "0 < length (varint_bytes x)"
  by (subst varint_bytes.simps) simp

lemma varint_bytes_length_bound:
  "unat x < 2 ^ (7 * k) \<Longrightarrow> 0 < k \<Longrightarrow> length (varint_bytes x) \<le> k"
proof (induction k arbitrary: x)
  case 0
  then show ?case by simp
next
  case (Suc k)
  show ?case
  proof (cases "0x80 \<le> x")
    case False
    then show ?thesis by (subst varint_bytes.simps) simp
  next
    case True
    then have big: "128 \<le> unat x" by (simp add: word_le_nat_alt)
    have "unat x < 2 ^ (7 * k) * 128" using Suc.prems(1) by (simp add: power_add)
    then have small: "unat (drop_bit 7 x) < 2 ^ (7 * k)"
      by (simp add: unat_drop_bit_7 less_mult_imp_div_less)
    have "0 < k"
    proof (rule ccontr)
      assume "\<not> 0 < k"
      then have "unat x < 128" using Suc.prems(1) by simp
      with big show False by simp
    qed
    with small have "length (varint_bytes (drop_bit 7 x)) \<le> k" by (rule Suc.IH)
    with True show ?thesis by (subst varint_bytes.simps) simp
  qed
qed

lemma varint_bytes_length_le: "length (varint_bytes x) \<le> MaxVarintLen64"
proof -
  have "unat x < 2 ^ 64" using unsigned_less [of x, where ?'a = nat] by simp
  also have "(2 :: nat) ^ 64 \<le> 2 ^ (7 * 10)" by simp
  finally show ?thesis
    unfolding MaxVarintLen64_def by (rule varint_bytes_length_bound) simp
qed

lemma PutUvarint_loop_stores:
  "i + length (varint_bytes x) \<le> length buf \<Longrightarrow>
   PutUvarint_loop buf x i =
     Some (take i buf @ varint_bytes x @ drop (i + length (varint_bytes x)) buf,
           i + length (varint_bytes x))"
proof (induction buf x i rule: PutUvarint_loop.induct)
  case (1 buf x i)
  show ?case
  proof (cases "0x80 \<le> x")
    case False
    have vb: "varint_bytes x = [ucast x]" using False by (subst varint_bytes.simps) simp
    with "1.prems" have "i < length buf" by simp
    then show ?thesis
      using False by (subst PutUvarint_loop.simps) (simp add: vb upd_conv_take_nth_drop)
  next
    case True
    have vb: "varint_bytes x = (ucast x OR 0x80) # varint_bytes (drop_bit 7 x)"
      using True by (subst varint_bytes.simps) simp
    with "1.prems" have lt: "i < length buf"
      and le: "i + 1 + length (varint_bytes (drop_bit 7 x)) \<le> length (buf[i := ucast x OR 0x80])"
      by simp_all
    have "PutUvarint_loop buf x i =
            PutUvarint_loop (buf[i := ucast x OR 0x80]) (drop_bit 7 x) (i + 1)"
      using True lt by (subst PutUvarint_loop.simps) simp
    also note "1.IH" [OF True lt le]
    finally show ?thesis
      using lt by (simp add: vb take_Suc_conv_app_nth)
  qed
qed

lemma PutUvarint_head:
  "PutUvarint (replicate MaxVarintLen64 0) x =
     Some (varint_bytes x @ replicate (MaxVarintLen64 - length (varint_bytes x)) 0,
           length (varint_bytes x))"
  unfolding PutUvarint_def
  using PutUvarint_loop_stores [of 0 x "replicate MaxVarintLen64 0"] varint_bytes_length_le [of x]
  by simp


lemma Uvarint_loop_decodes:
  "s = 7 * i \<Longrightarrow> i < MaxVarintLen64 \<Longrightarrow> unat v < 2 ^ (64 - 7 * i) \<Longrightarrow>
   Uvarint_loop (varint_bytes v @ rest) i x s =
     (x OR push_bit s v, int (i + length (varint_bytes v)))"
proof (induction v arbitrary: i x s rule: varint_bytes.induct)
  case (1 v)
  show ?case
  proof (cases "0x80 \<le> v")
    case False
    then have lt: "v < 0x80" by simp
    have vb: "varint_bytes v = [ucast v]" using False by (subst varint_bytes.simps) simp
    have b: "(ucast v :: byte) < 0x80"
      using last_byte_low [OF lt] by (simp add: byte_lt_0x80)
    have last: "i = MaxVarintLen64 - 1 \<Longrightarrow> \<not> 1 < (ucast v :: byte)"
    proof -
      assume "i = MaxVarintLen64 - 1"
      then have "unat v < 2" using "1.prems"(3) by (simp add: MaxVarintLen64_def)
      moreover have "unat (ucast v :: byte) = take_bit 8 (unat v)"
        by (simp add: unsigned_ucast_eq)
      moreover have "take_bit 8 (unat v) \<le> unat v"
        by (rule take_bit_nat_less_eq_self)
      ultimately have "unat (ucast v :: byte) < 2" by linarith
      then show ?thesis by (simp add: word_less_nat_alt)
    qed
    show ?thesis
      using "1.prems"(2) b last by (auto simp: vb last_byte_value [OF lt])
  next
    case True
    have vb: "varint_bytes v = (ucast v OR 0x80) # varint_bytes (drop_bit 7 v)"
      using True by (subst varint_bytes.simps) simp
    have b: "\<not> (ucast v OR 0x80 :: byte) < 0x80"
      using cont_byte_high [of v] by (simp add: byte_lt_0x80)
    from True have big: "128 \<le> unat v" by (simp add: word_le_nat_alt)
    have i8: "i + 1 < MaxVarintLen64"
    proof (rule ccontr)
      assume "\<not> i + 1 < MaxVarintLen64"
      with "1.prems"(2) have "i = 9" by (simp add: MaxVarintLen64_def)
      with "1.prems"(3) have "unat v < 2" by simp
      with big show False by simp
    qed
    have "64 - 7 * i = (64 - 7 * (i + 1)) + 7"
      using i8 by (simp add: MaxVarintLen64_def)
    then have "(2 :: nat) ^ (64 - 7 * i) = 2 ^ (64 - 7 * (i + 1)) * 2 ^ 7"
      by (simp only: power_add)
    then have "(2 :: nat) ^ (64 - 7 * i) = 2 ^ (64 - 7 * (i + 1)) * 128"
      by simp
    with "1.prems"(3) have small: "unat (drop_bit 7 v) < 2 ^ (64 - 7 * (i + 1))"
      by (simp add: unat_drop_bit_7 less_mult_imp_div_less)
    have s7: "s + 7 = 7 * (i + 1)" using "1.prems"(1) by simp
    define x' where "x' = x OR push_bit s (v AND 0x7f)"
    have step: "Uvarint_loop (varint_bytes v @ rest) i x s =
            Uvarint_loop (varint_bytes (drop_bit 7 v) @ rest) (i + 1) x' (s + 7)"
      using "1.prems"(2) b by (simp add: vb cont_byte_value x'_def)
    have ih: "Uvarint_loop (varint_bytes (drop_bit 7 v) @ rest) (i + 1) x' (s + 7) =
            (x' OR push_bit (s + 7) (drop_bit 7 v),
             int (i + 1 + length (varint_bytes (drop_bit 7 v))))"
      by (rule "1.IH" [OF True s7 i8 small])
    have val: "x' OR push_bit (s + 7) (drop_bit 7 v) = x OR push_bit s v"
      unfolding x'_def by (simp only: or.assoc regroup)
    show ?thesis
      unfolding step ih val by (simp add: vb)
  qed
qed

lemma Uvarint_PutUvarint:
  "Uvarint (varint_bytes v @ rest) = (v, int (length (varint_bytes v)))"
  unfolding Uvarint_def
  using Uvarint_loop_decodes [of 0 0 v rest 0] unsigned_less [of v, where ?'a = nat]
  by (simp add: MaxVarintLen64_def)


lemma ReadUvarint_loop_decodes:
  "s = 7 * i \<Longrightarrow> i < MaxVarintLen64 \<Longrightarrow> unat v < 2 ^ (64 - 7 * i) \<Longrightarrow>
   pending r = varint_bytes v @ rest \<Longrightarrow>
   ReadUvarint_loop r i x s = (Inr (x OR push_bit s v), r\<lparr>pending := rest\<rparr>)"
proof (induction v arbitrary: i x s r rule: varint_bytes.induct)
  case (1 v)
  show ?case
  proof (cases "0x80 \<le> v")
    case False
    then have lt: "v < 0x80" by simp
    have vb: "varint_bytes v = [ucast v]" using False by (subst varint_bytes.simps) simp
    have rb: "ReadByte r = (Inr (ucast v), r\<lparr>pending := rest\<rparr>)"
      using "1.prems"(4) by (simp add: ReadByte_def vb)
    have b: "(ucast v :: byte) < 0x80"
      using last_byte_low [OF lt] by (simp add: byte_lt_0x80)
    have last: "i = MaxVarintLen64 - 1 \<Longrightarrow> \<not> 1 < (ucast v :: byte)"
    proof -
      assume "i = MaxVarintLen64 - 1"
      then have "unat v < 2" using "1.prems"(3) by (simp add: MaxVarintLen64_def)
      moreover have "unat (ucast v :: byte) = take_bit 8 (unat v)"
        by (simp add: unsigned_ucast_eq)
      moreover have "take_bit 8 (unat v) \<le> unat v"
        by (rule take_bit_nat_less_eq_self)
      ultimately have "unat (ucast v :: byte) < 2" by linarith
      then show ?thesis by (simp add: word_less_nat_alt)
    qed
    show ?thesis
      using "1.prems"(2) b last
      by (subst ReadUvarint_loop.simps) (auto simp: rb last_byte_value [OF lt])
  next
    case True
    have vb: "varint_bytes v = (ucast v OR 0x80) # varint_bytes (drop_bit 7 v)"
      using True by (subst varint_bytes.simps) simp
    define r' where "r' = r\<lparr>pending := varint_bytes (drop_bit 7 v) @ rest\<rparr>"
    have rb: "ReadByte r = (Inr (ucast v OR 0x80), r')"
      using "1.prems"(4) by (simp add: ReadByte_def vb r'_def)
    have pr': "pending r' = varint_bytes (drop_bit 7 v) @ rest" by (simp add: r'_def)
    have b: "\<not> (ucast v OR 0x80 :: byte) < 0x80"
      using cont_byte_high [of v] by (simp add: byte_lt_0x80)
    from True have big: "128 \<le> unat v" by (simp add: word_le_nat_alt)
    have i8: "i + 1 < MaxVarintLen64"
    proof (rule ccontr)
      assume "\<not> i + 1 < MaxVarintLen64"
      with "1.prems"(2) have "i = 9" by (simp add: MaxVarintLen64_def)
      with "1.prems"(3) have "unat v < 2" by simp
      with big show False by simp
    qed
    have "64 - 7 * i = (64 - 7 * (i + 1)) + 7"
      using i8 by (simp add: MaxVarintLen64_def)
    then have "(2 :: nat) ^ (64 - 7 * i) = 2 ^ (64 - 7 * (i + 1)) * 2 ^ 7"
      by (simp only: power_add)
    then have "(2 :: nat) ^ (64 - 7 * i) = 2 ^ (64 - 7 * (i + 1)) * 128"
      by simp
    with "1.prems"(3) have small: "unat (drop_bit 7 v) < 2 ^ (64 - 7 * (i + 1))"
      by (simp add: unat_drop_bit_7 less_mult_imp_div_less)
    have s7: "s + 7 = 7 * (i + 1)" using "1.prems"(1) by simp
    define x' where "x' = x OR push_bit s (v AND 0x7f)"
    have step: "ReadUvarint_loop r i x s = ReadUvarint_loop r' (i + 1) x' (s + 7)"
      using "1.prems"(2) b
      by (subst ReadUvarint_loop.simps) (simp add: rb cont_byte_value x'_def)
    have ih: "ReadUvarint_loop r' (i + 1) x' (s + 7) =
            (Inr (x' OR push_bit (s + 7) (drop_bit 7 v)), r'\<lparr>pending := rest\<rparr>)"
      by (rule "1.IH" [OF True s7 i8 small pr'])
    have val: "x' OR push_bit (s + 7) (drop_bit 7 v) = x OR push_bit s v"
      unfolding x'_def by (simp only: or.assoc regroup)
    show ?thesis
      unfolding step ih val by (simp add: r'_def)
  qed
qed

lemma ReadUvarint_PutUvarint:
  "pending r = varint_bytes v @ rest \<Longrightarrow>
   ReadUvarint r = (Inr v, r\<lparr>pending := rest\<rparr>)"
  unfolding ReadUvarint_def
  using ReadUvarint_loop_decodes [of 0 0 v r rest 0] unsigned_less [of v, where ?'a = nat]
  by (simp add: MaxVarintLen64_def)

lemma varint_bytes_continuation:
  "list_all (\<lambda>b. bit b 7) (butlast (varint_bytes x)) \<and> \<not> bit (last (varint_bytes x)) 7"
proof (induction x rule: varint_bytes.induct)
  case (1 x)
  show ?case
  proof (cases "0x80 \<le> x")
    case False
    then have "x < 0x80" by simp
    from last_byte_low [OF this] False show ?thesis
      by (subst (1 2) varint_bytes.simps) simp
  next
    case True
    have ne: "varint_bytes (drop_bit 7 x) \<noteq> []"
      using varint_bytes_length_pos [of "drop_bit 7 x"] by auto
    have vb: "varint_bytes x = (ucast x OR 0x80) # varint_bytes (drop_bit 7 x)"
      using True by (subst varint_bytes.simps) simp
    from "1.IH" [OF True] ne cont_byte_high [of x] show ?thesis
      by (simp add: vb)
  qed
qed

section \<open>Signed and unsigned readings of a length\<close>

lemma sint_nonneg_eq_uint: "0 \<le> sint (w :: uint64) \<Longrightarrow> sint w = uint w"
proof -
  assume nn: "0 \<le> sint w"
  have "sint w < 2 ^ (LENGTH(64) - 1)" by (rule sint_lt)
  then have "sint w < 2 ^ 64" by simp
  with nn have "take_bit 64 (sint w) = sint w" by (simp add: take_bit_int_eq_self)
  moreover have "uint w = take_bit LENGTH(64) (sint w)" by (rule uint_sint)
  ultimately show ?thesis by simp
qed

lemma uint_small_eq_sint: "uint (w :: uint64) < 2 ^ 63 \<Longrightarrow> sint w = uint w"
proof -
  assume lt: "uint w < 2 ^ 63"
  have "sint w = signed_take_bit (LENGTH(64) - Suc 0) (uint w)" by (rule sint_uint)
  also have "\<dots> = signed_take_bit 63 (uint w)" by simp
  also have "\<dots> = uint w"
  proof (rule signed_take_bit_int_eq_self)
    show "- (2 ^ 63) \<le> uint w" by (rule order_trans [of _ 0]) simp_all
    show "uint w < 2 ^ 63" by (rule lt)
  qed
  finally show ?thesis .
qed

lemma sint_le_max:
  assumes "0 \<le> sint (M :: uint64)" and "\<not> M < fl"
  shows "sint fl = int (unat fl)"
proof -
  have "uint fl \<le> uint M" using assms(2) by (simp add: word_less_def)
  also have "uint M = sint M" using assms(1) by (simp add: sint_nonneg_eq_uint)
  also have "sint M < 2 ^ (LENGTH(64) - 1)" by (rule sint_lt)
  finally have "uint fl < 2 ^ 63" by simp
  then show ?thesis by (simp add: uint_small_eq_sint)
qed

lemma word_of_nat_small64:
  assumes "int L < 2 ^ 64"
  shows "uint (word_of_nat L :: uint64) = int L"
proof -
  have "uint (word_of_nat L :: uint64) = int (take_bit 64 L)"
    by (simp add: unsigned_of_nat)
  also have "\<dots> = take_bit 64 (int L)" by (simp add: take_bit_of_nat)
  also have "\<dots> = int L" using assms by (simp add: take_bit_int_eq_self)
  finally show ?thesis .
qed

lemma word_of_nat_small:
  assumes "int L < 2 ^ 63"
  shows "uint (word_of_nat L :: uint64) = int L"
proof (rule word_of_nat_small64)
  show "int L < 2 ^ 64" using assms by simp
qed

lemma length_word:
  assumes "int L \<le> sint (M :: uint64)"
  shows "unat (word_of_nat L :: uint64) = L"
    and "sint (word_of_nat L :: uint64) = int L"
    and "\<not> M < (word_of_nat L :: uint64)"
proof -
  have nn: "0 \<le> sint M" using assms by linarith
  have "sint M < 2 ^ (LENGTH(64) - 1)" by (rule sint_lt)
  then have "sint M < 2 ^ 63" by simp
  with assms have L63: "int L < 2 ^ 63" by simp
  then have ui: "uint (word_of_nat L :: uint64) = int L" by (rule word_of_nat_small)
  then show "unat (word_of_nat L :: uint64) = L"
    by (simp add: unat_eq_nat_uint del: unsigned_of_nat)
  have "uint (word_of_nat L :: uint64) < 2 ^ 63" unfolding ui by (rule L63)
  then have "sint (word_of_nat L :: uint64) = uint (word_of_nat L :: uint64)"
    by (rule uint_small_eq_sint)
  then show "sint (word_of_nat L :: uint64) = int L" unfolding ui .
  have "uint M = sint M" using nn by (simp add: sint_nonneg_eq_uint)
  then have "uint (word_of_nat L :: uint64) \<le> uint M"
    unfolding ui using assms by linarith
  then show "\<not> M < (word_of_nat L :: uint64)" unfolding word_less_def by linarith
qed

lemma length_word_above:
  assumes "0 \<le> sint (M :: uint64)" and "int L = sint M + 1"
  shows "M < (word_of_nat L :: uint64)"
proof -
  have "sint M < 2 ^ (LENGTH(64) - 1)" by (rule sint_lt)
  then have "sint M < 2 ^ 63" by simp
  with assms(2) have "int L < 2 ^ 64" by simp
  then have "uint (word_of_nat L :: uint64) = int L" by (rule word_of_nat_small64)
  moreover have "uint M = sint M" using assms(1) by (simp add: sint_nonneg_eq_uint)
  ultimately show ?thesis unfolding word_less_def using assms(2) by linarith
qed

lemma Uvarint_loop_count:
  "Uvarint_loop buf i x s = (fl, n) \<Longrightarrow>
     (n \<le> 0 \<longrightarrow> fl = 0) \<and> n \<le> int i + int (length buf)"
proof (induction buf arbitrary: i x s)
  case Nil
  then show ?case by simp
next
  case (Cons b buf)
  show ?case
  proof (cases "i \<noteq> MaxVarintLen64 \<and> \<not> b < 0x80")
    case True
    with Cons.prems
    have "Uvarint_loop buf (i + 1) (x OR push_bit s (ucast (b AND 0x7f))) (s + 7) = (fl, n)"
      by simp
    from Cons.IH [OF this] show ?thesis by simp
  next
    case False
    with Cons.prems show ?thesis by (auto split: if_splits)
  qed
qed

lemma Uvarint_count:
  assumes "Uvarint r = (fl, n)"
  shows "n \<le> 0 \<Longrightarrow> fl = 0" and "n \<le> int (length r)"
  using Uvarint_loop_count [of r 0 0 0 fl n] assms by (simp_all add: Uvarint_def)

lemma VarintLengthFieldCodec_positive:
  "VarintLengthFieldCodec m = Inr v \<Longrightarrow> 0 < sint (maxFrameLength v)"
  by (auto simp: VarintLengthFieldCodec_def split: if_splits)

section \<open>The handlers on a well-formed frame\<close>

lemma HandleWrite_Bytes:
  assumes "int (length P) \<le> sint (maxFrameLength v)"
  shows "HandleWrite v (Bytes P) = Inr [varint_bytes (word_of_nat (length P)), P]"
  using assms varint_bytes_length_le [of "word_of_nat (length P)"]
  by (simp add: HandleWrite_def bodyBytes_of_def PutUvarint_head)

lemma HandleRead_frame:
  assumes "int (length P) \<le> sint (maxFrameLength v)"
  shows "HandleRead v (Bytes (varint_bytes (word_of_nat (length P)) @ P)) = Inr (BytesReader P)"
  using assms length_word [OF assms]
  by (simp add: HandleRead_def Uvarint_PutUvarint slice_from_def)

text \<open>
  C1. Round trip. For every payload \<open>P\<close> whose length is at most \<open>maxFrameLength\<close>,
  \<open>HandleWrite\<close> hands on the two segments header and \<open>P\<close>, and \<open>HandleRead\<close> on
  the buffer made of the header followed by \<open>P\<close> hands on a view that reads \<open>P\<close>.
\<close>
theorem C1_roundtrip:
  assumes "int (length P) \<le> sint (maxFrameLength v)"
  shows "\<exists>head. HandleWrite v (Bytes P) = Inr [head, P]
           \<and> HandleRead v (Bytes (head @ P)) = Inr (BytesReader P)
           \<and> fst (drain (BytesReader P)) = P"
  using HandleWrite_Bytes [OF assms] HandleRead_frame [OF assms] by simp

theorem C1_roundtrip_witness:
  "int (length hello) \<le> sint (maxFrameLength \<lparr>maxFrameLength = 1024\<rparr>)
   \<and> HandleWrite \<lparr>maxFrameLength = 1024\<rparr> (Bytes hello) = Inr [[0x05], hello]
   \<and> HandleRead \<lparr>maxFrameLength = 1024\<rparr> (Bytes ([0x05] @ hello)) = Inr (BytesReader hello)"
proof -
  have h: "int (length hello) \<le> sint (maxFrameLength \<lparr>maxFrameLength = 1024\<rparr>)"
    by (simp add: hello_def)
  have w: "HandleWrite \<lparr>maxFrameLength = 1024\<rparr> (Bytes hello) = Inr [[0x05], hello]"
    by code_simp
  from C1_roundtrip [OF h] w h show ?thesis by simp
qed


lemma PutUvarint_buf:
  assumes "MaxVarintLen64 \<le> length buf"
  shows "PutUvarint buf V =
           Some (varint_bytes V @ drop (length (varint_bytes V)) buf, length (varint_bytes V))"
  unfolding PutUvarint_def
  using PutUvarint_loop_stores [of 0 V buf] varint_bytes_length_le [of V] assms
  by simp

text \<open>
  C2. Varint round trip. For every 64-bit value \<open>V\<close>, \<open>PutUvarint\<close> into a buffer of at
  least \<open>MaxVarintLen64\<close> bytes returns a count \<open>n\<close> between 1 and 10; the first \<open>n\<close>
  bytes of the buffer decode to \<open>(V, n)\<close> with \<open>Uvarint\<close>, whatever bytes follow them,
  and to \<open>V\<close> with \<open>ReadUvarint\<close>, which consumes exactly these bytes; every one of
  them but the last has the high bit set, and the last has it clear.
\<close>
theorem C2_varint_roundtrip:
  assumes "MaxVarintLen64 \<le> length buf"
  shows "\<exists>head n. PutUvarint buf V = Some (head, n)
           \<and> 0 < n \<and> n \<le> 10 \<and> length (take n head) = n
           \<and> Uvarint (take n head @ rest) = (V, int n)
           \<and> ReadUvarint \<lparr>pending = take n head @ rest, closing = c\<rparr>
                = (Inr V, \<lparr>pending = rest, closing = c\<rparr>)
           \<and> list_all (\<lambda>b. bit b 7) (butlast (take n head))
           \<and> \<not> bit (last (take n head)) 7"
proof -
  let ?e = "varint_bytes V"
  let ?head = "?e @ drop (length ?e) buf"
  have put: "PutUvarint buf V = Some (?head, length ?e)"
    by (rule PutUvarint_buf [OF assms])
  have tk: "take (length ?e) ?head = ?e" by simp
  have len: "0 < length ?e" "length ?e \<le> 10"
    using varint_bytes_length_pos [of V] varint_bytes_length_le [of V]
    by (simp_all add: MaxVarintLen64_def)
  have dec: "Uvarint (?e @ rest) = (V, int (length ?e))"
    by (rule Uvarint_PutUvarint)
  have rd: "ReadUvarint \<lparr>pending = ?e @ rest, closing = c\<rparr>
              = (Inr V, \<lparr>pending = rest, closing = c\<rparr>)"
    using ReadUvarint_PutUvarint [of "\<lparr>pending = ?e @ rest, closing = c\<rparr>" V rest]
    by simp
  have "PutUvarint buf V = Some (?head, length ?e)
           \<and> 0 < length ?e \<and> length ?e \<le> 10 \<and> length (take (length ?e) ?head) = length ?e
           \<and> Uvarint (take (length ?e) ?head @ rest) = (V, int (length ?e))
           \<and> ReadUvarint \<lparr>pending = take (length ?e) ?head @ rest, closing = c\<rparr>
                = (Inr V, \<lparr>pending = rest, closing = c\<rparr>)
           \<and> list_all (\<lambda>b. bit b 7) (butlast (take (length ?e) ?head))
           \<and> \<not> bit (last (take (length ?e) ?head)) 7"
    unfolding tk using put len dec rd varint_bytes_continuation [of V] by simp
  then show ?thesis by blast
qed


theorem C2_varint_roundtrip_witness:
  "MaxVarintLen64 \<le> length (replicate MaxVarintLen64 (0 :: byte))
   \<and> (\<exists>head n. PutUvarint (replicate MaxVarintLen64 0) 300 = Some (head, n)
           \<and> 0 < n \<and> n \<le> 10 \<and> length (take n head) = n
           \<and> Uvarint (take n head @ hello) = (300, int n)
           \<and> ReadUvarint \<lparr>pending = take n head @ hello, closing = EOF\<rparr>
                = (Inr 300, \<lparr>pending = hello, closing = EOF\<rparr>)
           \<and> list_all (\<lambda>b. bit b 7) (butlast (take n head))
           \<and> \<not> bit (last (take n head)) 7)"
proof -
  have h: "MaxVarintLen64 \<le> length (replicate MaxVarintLen64 (0 :: byte))" by simp
  from C2_varint_roundtrip [OF h, of 300 hello EOF] h show ?thesis by blast
qed

text \<open>
  C6. A message that is neither a reader nor a byte slice makes both handlers fail with
  the unrecognized-type error of the source; nothing is handed to the context.
\<close>
theorem C6_unrecognized_type:
  "HandleRead v (Other t) = Inl (UnrecognizedType t)
   \<and> HandleWrite v (Other t) = Inl (UnrecognizedType t)"
  by (simp add: HandleRead_def HandleWrite_def bodyBytes_of_def)

text \<open>
  C9. An empty byte slice does not fail in \<open>HandleRead\<close>: \<open>Uvarint\<close> reports value 0
  and 0 bytes, both assertions pass, and the view handed on is empty.
\<close>
theorem C9_empty_buffer:
  "Uvarint [] = (0, 0) \<and> HandleRead v (Bytes []) = Inr (BytesReader [])
   \<and> drain (BytesReader []) = ([], None)"
  by (simp add: HandleRead_def Uvarint_def slice_from_def)

text \<open>
  C4. A byte slice of ten bytes \<open>0x80\<close>. \<open>Uvarint\<close> reports \<open>(0, 0)\<close>; the count is
  not examined, and \<open>HandleRead\<close> fails at the length comparison with the
  incomplete-packet error, which is not a malformed-varint error. The same ten bytes
  arriving through a reader fail with the overflow error of \<open>ReadUvarint\<close>.
\<close>
theorem C4_ten_continuation_bytes:
  "Uvarint (replicate 10 0x80) = (0, 0)
   \<and> HandleRead v (Bytes (replicate 10 0x80)) = Inl IncompletePacket
   \<and> \<not> MalformedVarint IncompletePacket
   \<and> HandleRead v (Reader \<lparr>pending = replicate 10 0x80, closing = EOF\<rparr>) = Inl ErrOverflow
   \<and> MalformedVarint ErrOverflow"
proof -
  have u: "Uvarint (replicate 10 0x80) = (0, 0)" by code_simp
  have r: "ReadUvarint \<lparr>pending = replicate 10 0x80, closing = EOF\<rparr>
             = (Inl ErrOverflow, \<lparr>pending = [], closing = EOF\<rparr>)" by code_simp
  show ?thesis by (simp add: HandleRead_def u r)
qed

text \<open>
  C10. \<open>HandleRead\<close> on a byte slice never reaches the slice expression \<open>r[n:]\<close> with
  an offset outside the slice. In particular, when \<open>Uvarint\<close> reports a count \<open>n \<le> 0\<close>,
  either the slice is empty, \<open>n = 0\<close> and the decode succeeds with an empty view, or
  the length comparison fails first with the incomplete-packet error.
\<close>
theorem C10_no_slice_out_of_range:
  "HandleRead v (Bytes r) \<noteq> Inl SliceOutOfRange
   \<and> (snd (Uvarint r) \<le> 0 \<longrightarrow>
        (r = [] \<and> snd (Uvarint r) = 0 \<and> HandleRead v (Bytes r) = Inr (BytesReader []))
        \<or> HandleRead v (Bytes r) = Inl IncompletePacket)"
proof -
  obtain fl n where u: "Uvarint r = (fl, n)" by (cases "Uvarint r")
  note c = Uvarint_count [OF u]
  have safe: "HandleRead v (Bytes r) \<noteq> Inl SliceOutOfRange"
  proof (cases "n < 0")
    case True
    then have "fl = 0" using c(1) by simp
    with True show ?thesis by (simp add: HandleRead_def u)
  next
    case False
    with c(2) show ?thesis by (simp add: HandleRead_def u slice_from_def)
  qed
  have "n \<le> 0 \<Longrightarrow> (r = [] \<and> n = 0 \<and> HandleRead v (Bytes r) = Inr (BytesReader []))
        \<or> HandleRead v (Bytes r) = Inl IncompletePacket"
  proof -
    assume le: "n \<le> 0"
    then have z: "fl = 0" by (rule c(1))
    show ?thesis
    proof (cases "r = [] \<and> n = 0")
      case True
      with u z show ?thesis by (auto simp: HandleRead_def slice_from_def)
    next
      case False
      with le have "int (length r) - n \<noteq> 0" by auto
      then show ?thesis by (simp add: HandleRead_def u z)
    qed
  qed
  with safe show ?thesis by (simp add: u)
qed

theorem C10_no_slice_out_of_range_witness:
  "snd (Uvarint (replicate 11 0x80)) \<le> 0
   \<and> snd (Uvarint (replicate 11 0x80)) = - 11
   \<and> HandleRead \<lparr>maxFrameLength = 1024\<rparr> (Bytes (replicate 11 0x80)) = Inl IncompletePacket
   \<and> HandleRead \<lparr>maxFrameLength = 1024\<rparr> (Bytes (replicate 11 0x80)) \<noteq> Inl SliceOutOfRange"
proof -
  have u: "Uvarint (replicate 11 0x80) = (0, - 11)" by code_simp
  from C10_no_slice_out_of_range [of "\<lparr>maxFrameLength = 1024\<rparr>" "replicate 11 0x80"]
  show ?thesis by (simp add: u)
qed

section \<open>Bounds, views and headers\<close>

lemma HandleRead_Reader_frame:
  assumes "int (length P) \<le> sint (maxFrameLength v)"
  shows "HandleRead v (Reader \<lparr>pending = varint_bytes (word_of_nat (length P)) @ rest, closing = c\<rparr>)
           = Inr (LimitedReader \<lparr>pending = rest, closing = c\<rparr> (int (length P)))"
  using length_word [OF assms]
    ReadUvarint_PutUvarint [of "\<lparr>pending = varint_bytes (word_of_nat (length P)) @ rest, closing = c\<rparr>"
      "word_of_nat (length P)" rest]
  by (simp add: HandleRead_def)

lemma HandleWrite_too_large:
  assumes "bodyBytes_of msg = Inr body" and "sint (maxFrameLength v) < int (length body)"
  shows "HandleWrite v msg = Inl FrameTooLarge"
  using assms by (simp add: HandleWrite_def)

lemma HandleRead_Bytes_too_large:
  assumes "maxFrameLength v < fst (Uvarint r)"
  shows "HandleRead v (Bytes r) = Inl FrameTooLarge"
  using assms by (cases "Uvarint r") (simp add: HandleRead_def)

lemma HandleRead_Reader_too_large:
  assumes "fst (ReadUvarint rd) = Inr fl" and "maxFrameLength v < fl"
  shows "HandleRead v (Reader rd) = Inl FrameTooLarge"
  using assms by (cases "ReadUvarint rd") (simp add: HandleRead_def)

text \<open>
  C3. Boundary, for a codec built by \<open>VarintLengthFieldCodec\<close>. A payload of length
  exactly \<open>maxFrameLength\<close> is encoded (as a byte slice and as a reader) and its frame
  is decoded (as a byte slice and as a reader). A payload of length
  \<open>maxFrameLength + 1\<close> fails in \<open>HandleWrite\<close> with the frame-too-large error, and
  a frame whose prefix declares that length fails in \<open>HandleRead\<close> with the same
  error. In general \<open>HandleWrite\<close> fails so whenever the resolved payload is longer
  than \<open>maxFrameLength\<close>, in which case no header is encoded and nothing is handed on,
  and \<open>HandleRead\<close> fails so whenever the decoded prefix exceeds \<open>maxFrameLength\<close>.
\<close>
theorem C3_boundary:
  assumes "VarintLengthFieldCodec m = Inr v"
  shows "(int (length P) = sint (maxFrameLength v) \<longrightarrow>
           (\<exists>head. HandleWrite v (Bytes P) = Inr [head, P]
              \<and> HandleWrite v (Reader \<lparr>pending = P, closing = EOF\<rparr>) = Inr [head, P]
              \<and> HandleRead v (Bytes (head @ P)) = Inr (BytesReader P)
              \<and> HandleRead v (Reader \<lparr>pending = head @ P, closing = EOF\<rparr>)
                   = Inr (LimitedReader \<lparr>pending = P, closing = EOF\<rparr> (int (length P)))))
       \<and> (int (length Q) = sint (maxFrameLength v) + 1 \<longrightarrow>
            HandleWrite v (Bytes Q) = Inl FrameTooLarge
            \<and> HandleWrite v (Reader \<lparr>pending = Q, closing = EOF\<rparr>) = Inl FrameTooLarge
            \<and> (\<exists>head n. PutUvarint (replicate MaxVarintLen64 0) (word_of_nat (length Q)) = Some (head, n)
                  \<and> HandleRead v (Bytes (take n head @ Q)) = Inl FrameTooLarge
                  \<and> HandleRead v (Reader \<lparr>pending = take n head @ Q, closing = EOF\<rparr>)
                       = Inl FrameTooLarge))
       \<and> (bodyBytes_of msg = Inr body \<and> sint (maxFrameLength v) < int (length body) \<longrightarrow>
            HandleWrite v msg = Inl FrameTooLarge)
       \<and> (maxFrameLength v < fst (Uvarint r) \<longrightarrow> HandleRead v (Bytes r) = Inl FrameTooLarge)
       \<and> (fst (ReadUvarint rd) = Inr fl \<and> maxFrameLength v < fl \<longrightarrow>
            HandleRead v (Reader rd) = Inl FrameTooLarge)"
proof -
  have pos: "0 < sint (maxFrameLength v)"
    by (rule VarintLengthFieldCodec_positive [OF assms])
  have exact: "\<exists>head. HandleWrite v (Bytes P) = Inr [head, P]
              \<and> HandleWrite v (Reader \<lparr>pending = P, closing = EOF\<rparr>) = Inr [head, P]
              \<and> HandleRead v (Bytes (head @ P)) = Inr (BytesReader P)
              \<and> HandleRead v (Reader \<lparr>pending = head @ P, closing = EOF\<rparr>)
                   = Inr (LimitedReader \<lparr>pending = P, closing = EOF\<rparr> (int (length P)))"
    if "int (length P) = sint (maxFrameLength v)"
  proof -
    from that have le: "int (length P) \<le> sint (maxFrameLength v)" by simp
    have "HandleWrite v (Reader \<lparr>pending = P, closing = EOF\<rparr>) = HandleWrite v (Bytes P)"
      by (simp add: HandleWrite_def bodyBytes_of_def ReadAll_def)
    then show ?thesis
      using HandleWrite_Bytes [OF le] HandleRead_frame [OF le]
        HandleRead_Reader_frame [OF le, of P EOF]
      by simp
  qed
  have above: "HandleWrite v (Bytes Q) = Inl FrameTooLarge
            \<and> HandleWrite v (Reader \<lparr>pending = Q, closing = EOF\<rparr>) = Inl FrameTooLarge
            \<and> (\<exists>head n. PutUvarint (replicate MaxVarintLen64 0) (word_of_nat (length Q)) = Some (head, n)
                  \<and> HandleRead v (Bytes (take n head @ Q)) = Inl FrameTooLarge
                  \<and> HandleRead v (Reader \<lparr>pending = take n head @ Q, closing = EOF\<rparr>)
                       = Inl FrameTooLarge)"
    if "int (length Q) = sint (maxFrameLength v) + 1"
  proof -
    let ?L = "word_of_nat (length Q) :: uint64"
    from that have gt: "sint (maxFrameLength v) < int (length Q)" by simp
    have big: "maxFrameLength v < ?L"
      using pos that by (intro length_word_above) simp_all
    have w1: "HandleWrite v (Bytes Q) = Inl FrameTooLarge"
      using gt by (intro HandleWrite_too_large [of _ Q]) (simp_all add: bodyBytes_of_def)
    have w2: "HandleWrite v (Reader \<lparr>pending = Q, closing = EOF\<rparr>) = Inl FrameTooLarge"
      using gt by (intro HandleWrite_too_large [of _ Q]) (simp_all add: bodyBytes_of_def ReadAll_def)
    have put: "PutUvarint (replicate MaxVarintLen64 0) ?L
                 = Some (varint_bytes ?L @ replicate (MaxVarintLen64 - length (varint_bytes ?L)) 0,
                         length (varint_bytes ?L))"
      by (rule PutUvarint_head)
    have r1: "HandleRead v (Bytes (varint_bytes ?L @ Q)) = Inl FrameTooLarge"
      using big by (intro HandleRead_Bytes_too_large) (simp add: Uvarint_PutUvarint)
    have r2: "HandleRead v (Reader \<lparr>pending = varint_bytes ?L @ Q, closing = EOF\<rparr>)
                = Inl FrameTooLarge"
      using big ReadUvarint_PutUvarint [of "\<lparr>pending = varint_bytes ?L @ Q, closing = EOF\<rparr>" ?L Q]
      by (intro HandleRead_Reader_too_large [of _ ?L]) simp_all
    show ?thesis
      using w1 w2 put r1 r2 by simp
  qed
  show ?thesis
    using exact above HandleWrite_too_large [of msg body v]
      HandleRead_Bytes_too_large [of v r] HandleRead_Reader_too_large [of rd fl v]
    by blast
qed


theorem C3_boundary_witness:
  "VarintLengthFieldCodec 100 = Inr codec100
   \<and> int (length (replicate 100 (1 :: byte))) = sint (maxFrameLength codec100)
   \<and> (\<exists>head. HandleWrite codec100 (Bytes (replicate 100 1)) = Inr [head, replicate 100 1]
          \<and> HandleWrite codec100 (Reader \<lparr>pending = replicate 100 1, closing = EOF\<rparr>)
               = Inr [head, replicate 100 1]
          \<and> HandleRead codec100 (Bytes (head @ replicate 100 1)) = Inr (BytesReader (replicate 100 1))
          \<and> HandleRead codec100 (Reader \<lparr>pending = head @ replicate 100 1, closing = EOF\<rparr>)
               = Inr (LimitedReader \<lparr>pending = replicate 100 1, closing = EOF\<rparr>
                        (int (length (replicate 100 (1 :: byte))))))
   \<and> int (length (replicate 101 (2 :: byte))) = sint (maxFrameLength codec100) + 1
   \<and> HandleWrite codec100 (Bytes (replicate 101 2)) = Inl FrameTooLarge
   \<and> HandleWrite codec100 (Reader \<lparr>pending = replicate 101 2, closing = EOF\<rparr>) = Inl FrameTooLarge
   \<and> (\<exists>head n. PutUvarint (replicate MaxVarintLen64 0)
                    (word_of_nat (length (replicate 101 (2 :: byte)))) = Some (head, n)
          \<and> HandleRead codec100 (Bytes (take n head @ replicate 101 2)) = Inl FrameTooLarge
          \<and> HandleRead codec100 (Reader \<lparr>pending = take n head @ replicate 101 2, closing = EOF\<rparr>)
               = Inl FrameTooLarge)
   \<and> bodyBytes_of (Bytes (replicate 300 7)) = Inr (replicate 300 7)
   \<and> sint (maxFrameLength codec100) < int (length (replicate 300 (7 :: byte)))
   \<and> HandleWrite codec100 (Bytes (replicate 300 7)) = Inl FrameTooLarge
   \<and> maxFrameLength codec100 < fst (Uvarint [0x65])
   \<and> HandleRead codec100 (Bytes [0x65]) = Inl FrameTooLarge
   \<and> fst (ReadUvarint \<lparr>pending = [0x65], closing = EOF\<rparr>) = Inr 0x65
   \<and> maxFrameLength codec100 < 0x65
   \<and> HandleRead codec100 (Reader \<lparr>pending = [0x65], closing = EOF\<rparr>) = Inl FrameTooLarge"
proof -
  have h0: "VarintLengthFieldCodec 100 = Inr codec100"
    by (simp add: VarintLengthFieldCodec_def codec100_def)
  have h1: "int (length (replicate 100 (1 :: byte))) = sint (maxFrameLength codec100)"
    by (simp add: codec100_def)
  have h2: "int (length (replicate 101 (2 :: byte))) = sint (maxFrameLength codec100) + 1"
    by (simp add: codec100_def)
  have h3: "bodyBytes_of (Bytes (replicate 300 7)) = Inr (replicate 300 7)
            \<and> sint (maxFrameLength codec100) < int (length (replicate 300 (7 :: byte)))"
    by (simp add: codec100_def bodyBytes_of_def)
  have h4: "maxFrameLength codec100 < fst (Uvarint [0x65])"
    by (simp add: codec100_def Uvarint_def MaxVarintLen64_def)
  have h5: "fst (ReadUvarint \<lparr>pending = [0x65], closing = EOF\<rparr>) = Inr 0x65
            \<and> maxFrameLength codec100 < 0x65"
    by (simp add: codec100_def ReadUvarint_def ReadUvarint_loop.simps ReadByte_def
        MaxVarintLen64_def)
  note T = C3_boundary [OF h0, of "replicate 100 1" "replicate 101 2" "Bytes (replicate 300 7)"
      "replicate 300 7" "[0x65]" "\<lparr>pending = [0x65], closing = EOF\<rparr>" "0x65"]
  from T h1 h2 h3 h4 h5 h0 show ?thesis by blast
qed

text \<open>
  C5. For a byte slice whose prefix decodes to \<open>frameLength\<close> within the bound,
  \<open>HandleRead\<close> fails with the incomplete-packet error exactly when \<open>frameLength\<close>
  differs from the number of bytes after the prefix: too few and too many bytes are both
  rejected, and an exact match is decoded to the bytes after the prefix.
\<close>
theorem C5_incomplete_packet:
  assumes "VarintLengthFieldCodec m = Inr v"
    and "Uvarint r = (frameLength, n)"
    and "\<not> maxFrameLength v < frameLength"
  shows "(HandleRead v (Bytes r) = Inl IncompletePacket
            \<longleftrightarrow> unat frameLength \<noteq> length (drop (nat n) r))
       \<and> (length (drop (nat n) r) < unat frameLength \<longrightarrow>
            HandleRead v (Bytes r) = Inl IncompletePacket)
       \<and> (unat frameLength < length (drop (nat n) r) \<longrightarrow>
            HandleRead v (Bytes r) = Inl IncompletePacket)
       \<and> (unat frameLength = length (drop (nat n) r) \<longrightarrow>
            HandleRead v (Bytes r) = Inr (BytesReader (drop (nat n) r)))"
proof -
  have pos: "0 \<le> sint (maxFrameLength v)"
    using VarintLengthFieldCodec_positive [OF assms(1)] by simp
  have sfl: "sint frameLength = int (unat frameLength)"
    by (rule sint_le_max [OF pos assms(3)])
  note c = Uvarint_count [OF assms(2)]
  have rd: "HandleRead v (Bytes r) =
              (if int (unat frameLength) \<noteq> int (length r) - n then Inl IncompletePacket
               else case slice_from r n of None \<Rightarrow> Inl SliceOutOfRange
                    | Some rest \<Rightarrow> Inr (BytesReader rest))"
    using assms(3) by (simp add: HandleRead_def assms(2) sfl)
  show ?thesis
  proof (cases "0 \<le> n")
    case True
    with c(2) have len: "int (length (drop (nat n) r)) = int (length r) - n" by simp
    have sl: "slice_from r n = Some (drop (nat n) r)"
      using True c(2) by (simp add: slice_from_def)
    have eqv: "(int (unat frameLength) \<noteq> int (length r) - n)
                 = (unat frameLength \<noteq> length (drop (nat n) r))"
      by (simp only: len [symmetric] of_nat_eq_iff)
    have "HandleRead v (Bytes r) =
            (if unat frameLength \<noteq> length (drop (nat n) r) then Inl IncompletePacket
             else Inr (BytesReader (drop (nat n) r)))"
      unfolding rd sl eqv by simp
    then show ?thesis by auto
  next
    case False
    then have neg: "n < 0" by simp
    then have z: "frameLength = 0" using c(1) by simp
    have ne: "r \<noteq> []"
      using assms(2) neg by (auto simp: Uvarint_def)
    have "HandleRead v (Bytes r) = Inl IncompletePacket"
      unfolding rd using neg z by simp
    with ne neg z show ?thesis by simp
  qed
qed

theorem C5_incomplete_packet_witness:
  "VarintLengthFieldCodec 100 = Inr codec100
   \<and> Uvarint [10, 1, 2, 3, 4, 5, 6, 7, 8] = (10, 1)
   \<and> \<not> maxFrameLength codec100 < 10
   \<and> length (drop (nat 1) [10, 1, 2, 3, 4, 5, 6, 7, 8 :: byte]) < unat (10 :: uint64)
   \<and> HandleRead codec100 (Bytes [10, 1, 2, 3, 4, 5, 6, 7, 8]) = Inl IncompletePacket"
proof -
  have h0: "VarintLengthFieldCodec 100 = Inr codec100"
    by (simp add: VarintLengthFieldCodec_def codec100_def)
  have h1: "Uvarint [10, 1, 2, 3, 4, 5, 6, 7, 8] = (10, 1)"
    by (simp add: Uvarint_def MaxVarintLen64_def)
  have h2: "\<not> maxFrameLength codec100 < 10"
    by (simp add: codec100_def)
  have h3: "length (drop (nat 1) [10, 1, 2, 3, 4, 5, 6, 7, 8 :: byte]) < unat (10 :: uint64)"
    by simp
  from C5_incomplete_packet [OF h0 h1 h2] h0 h1 h2 h3 show ?thesis by blast
qed


text \<open>
  C8. Whenever \<open>HandleWrite\<close> succeeds it hands on exactly two segments, header and
  payload; \<open>Uvarint\<close> on the header yields the length of the payload and consumes the
  whole header; for a byte-slice message the payload is the message itself, for a reader
  it is what the reader held.
\<close>
theorem C8_header_decodes:
  assumes "HandleWrite v msg = Inr out"
  shows "\<exists>head body. out = [head, body] \<and> bodyBytes_of msg = Inr body
           \<and> Uvarint head = (word_of_nat (length body), int (length head))
           \<and> unat (fst (Uvarint head)) = length body
           \<and> (case msg of Bytes P \<Rightarrow> body = P | Reader rd \<Rightarrow> body = pending rd
                | Other t \<Rightarrow> False)"
proof -
  from assms obtain body where b: "bodyBytes_of msg = Inr body"
    by (cases "bodyBytes_of msg") (simp_all add: HandleWrite_def)
  from assms b have le: "int (length body) \<le> sint (maxFrameLength v)"
    by (cases "sint (maxFrameLength v) < int (length body)") (simp_all add: HandleWrite_def)
  let ?head = "varint_bytes (word_of_nat (length body))"
  from assms b le have out: "out = [?head, body]"
    by (simp add: HandleWrite_def PutUvarint_head)
  have dec: "Uvarint ?head = (word_of_nat (length body), int (length ?head))"
    using Uvarint_PutUvarint [of "word_of_nat (length body)" "[]"] by simp
  have shape: "case msg of Bytes P \<Rightarrow> body = P | Reader rd \<Rightarrow> body = pending rd
                | Other t \<Rightarrow> False"
    using b by (cases msg) (auto simp: bodyBytes_of_def ReadAll_def split: if_splits)
  show ?thesis
    using out b dec shape length_word(1) [OF le] by simp
qed

theorem C8_header_decodes_witness:
  "HandleWrite codec100 (Bytes hello) = Inr [[0x05], hello]
   \<and> (\<exists>head body. [[0x05], hello] = [head, body] \<and> bodyBytes_of (Bytes hello) = Inr body
           \<and> Uvarint head = (word_of_nat (length body), int (length head))
           \<and> unat (fst (Uvarint head)) = length body
           \<and> (case Bytes hello of Bytes P \<Rightarrow> body = P | Reader rd \<Rightarrow> body = pending rd
                | Other t \<Rightarrow> False))"
proof -
  have h: "HandleWrite codec100 (Bytes hello) = Inr [[0x05], hello]"
    by code_simp
  from C8_header_decodes [OF h] h show ?thesis by blast
qed

text \<open>
  C7, as stated, fails on a stream that ends inside a frame: the prefix \<open>0x05\<close>
  followed by a single byte. \<open>HandleRead\<close> succeeds with a view limited to 5 bytes,
  and the view gives the one byte the stream holds.
\<close>
theorem C7_counterexample:
  "HandleRead codec100 (Reader \<lparr>pending = [0x05, 0x68], closing = EOF\<rparr>)
     = Inr (LimitedReader \<lparr>pending = [0x68], closing = EOF\<rparr> 5)
   \<and> ReadUvarint \<lparr>pending = [0x05, 0x68], closing = EOF\<rparr>
     = (Inr 5, \<lparr>pending = [0x68], closing = EOF\<rparr>)
   \<and> drain (LimitedReader \<lparr>pending = [0x68], closing = EOF\<rparr> 5)
     = ([0x68], Some \<lparr>pending = [], closing = EOF\<rparr>)
   \<and> length (fst (drain (LimitedReader \<lparr>pending = [0x68], closing = EOF\<rparr> 5)))
     \<noteq> unat (5 :: uint64)"
proof -
  have r: "ReadUvarint \<lparr>pending = [0x05, 0x68], closing = EOF\<rparr>
             = (Inr 5, \<lparr>pending = [0x68], closing = EOF\<rparr>)"
    by (simp add: ReadUvarint_def ReadUvarint_loop.simps ReadByte_def MaxVarintLen64_def)
  show ?thesis
    by (simp add: HandleRead_def r codec100_def)
qed

lemma HandleRead_Bytes_view:
  assumes "0 \<le> sint (maxFrameLength v)" and "HandleRead v (Bytes r) = Inr p"
  shows "p = BytesReader (drop (nat (snd (Uvarint r))) r)
         \<and> length (drop (nat (snd (Uvarint r))) r) = unat (fst (Uvarint r))"
proof -
  obtain fl n where u: "Uvarint r = (fl, n)" by (cases "Uvarint r")
  note c = Uvarint_count [OF u]
  from assms(2) have le: "\<not> maxFrameLength v < fl"
    by (cases "maxFrameLength v < fl") (simp_all add: HandleRead_def u)
  have sfl: "sint fl = int (unat fl)" by (rule sint_le_max [OF assms(1) le])
  from assms(2) le have eq: "int (unat fl) = int (length r) - n"
    by (cases "sint fl = int (length r) - n") (simp_all add: HandleRead_def u sfl)
  have nn: "0 \<le> n"
  proof (rule ccontr)
    assume "\<not> 0 \<le> n"
    then have "n < 0" by simp
    with c(1) have "fl = 0" by simp
    with eq \<open>n < 0\<close> show False by simp
  qed
  with c(2) have sl: "slice_from r n = Some (drop (nat n) r)" by (simp add: slice_from_def)
  from assms(2) le eq have "p = BytesReader (drop (nat n) r)"
    by (simp add: HandleRead_def u sfl sl)
  moreover have "int (length (drop (nat n) r)) = int (length r) - n"
    using nn c(2) by simp
  then have "int (length (drop (nat n) r)) = int (unat fl)"
    by (simp only: eq)
  then have "length (drop (nat n) r) = unat fl" by (simp only: of_nat_eq_iff)
  ultimately show ?thesis by (simp add: u)
qed

lemma HandleRead_Reader_view:
  assumes "0 \<le> sint (maxFrameLength v)" and "HandleRead v (Reader rd) = Inr q"
  shows "\<exists>fl rd'. ReadUvarint rd = (Inr fl, rd') \<and> q = LimitedReader rd' (int (unat fl))"
proof -
  obtain res rd' where u: "ReadUvarint rd = (res, rd')" by (cases "ReadUvarint rd")
  from assms(2) obtain fl where res: "res = Inr fl"
    by (cases res) (simp_all add: HandleRead_def u)
  from assms(2) have le: "\<not> maxFrameLength v < fl"
    by (cases "maxFrameLength v < fl") (simp_all add: HandleRead_def u res)
  have sfl: "sint fl = int (unat fl)" by (rule sint_le_max [OF assms(1) le])
  from assms(2) le have "q = LimitedReader rd' (int (unat fl))"
    by (simp add: HandleRead_def u res sfl)
  with u res show ?thesis by simp
qed


text \<open>
  C7, amended. For a codec built by \<open>VarintLengthFieldCodec\<close>: a successful decode of
  a byte slice hands on a view whose length is exactly the decoded prefix value. A
  successful decode of a reader hands on a view limited to the decoded prefix value
  \<open>frameLength\<close>: reading it to the end gives the next
  \<open>min frameLength (bytes available)\<close> bytes of the stream and leaves the stream just
  after them. For a stream holding two frames one after the other, reading the view of
  the first frame gives its payload and leaves the stream at the prefix of the second,
  whose decode then gives the second payload.
\<close>
theorem C7_view_bounded:
  assumes "VarintLengthFieldCodec m = Inr v"
  shows "(HandleRead v (Bytes r) = Inr p \<longrightarrow>
            fst (drain p) = drop (nat (snd (Uvarint r))) r
            \<and> length (fst (drain p)) = unat (fst (Uvarint r)))
       \<and> (HandleRead v (Reader rd) = Inr q \<longrightarrow>
            (\<exists>fl rd'. ReadUvarint rd = (Inr fl, rd')
               \<and> q = LimitedReader rd' (int (unat fl))
               \<and> drain q = (take (unat fl) (pending rd'),
                             Some (rd'\<lparr>pending := drop (unat fl) (pending rd')\<rparr>))
               \<and> length (fst (drain q)) = min (unat fl) (length (pending rd'))))
       \<and> (int (length P1) \<le> sint (maxFrameLength v)
            \<and> int (length P2) \<le> sint (maxFrameLength v) \<longrightarrow>
            (\<exists>h1 h2 q1 q2 rd1.
               HandleWrite v (Bytes P1) = Inr [h1, P1]
               \<and> HandleWrite v (Bytes P2) = Inr [h2, P2]
               \<and> HandleRead v (Reader \<lparr>pending = h1 @ P1 @ h2 @ P2 @ rest, closing = c\<rparr>) = Inr q1
               \<and> drain q1 = (P1, Some rd1)
               \<and> rd1 = \<lparr>pending = h2 @ P2 @ rest, closing = c\<rparr>
               \<and> HandleRead v (Reader rd1) = Inr q2
               \<and> drain q2 = (P2, Some \<lparr>pending = rest, closing = c\<rparr>)))"
proof -
  have pos: "0 \<le> sint (maxFrameLength v)"
    using VarintLengthFieldCodec_positive [OF assms] by simp
  have bytes: "fst (drain p) = drop (nat (snd (Uvarint r))) r
            \<and> length (fst (drain p)) = unat (fst (Uvarint r))"
    if "HandleRead v (Bytes r) = Inr p"
    using HandleRead_Bytes_view [OF pos that] by simp
  have stream: "\<exists>fl rd'. ReadUvarint rd = (Inr fl, rd')
               \<and> q = LimitedReader rd' (int (unat fl))
               \<and> drain q = (take (unat fl) (pending rd'),
                             Some (rd'\<lparr>pending := drop (unat fl) (pending rd')\<rparr>))
               \<and> length (fst (drain q)) = min (unat fl) (length (pending rd'))"
    if "HandleRead v (Reader rd) = Inr q"
  proof -
    from HandleRead_Reader_view [OF pos that] obtain fl rd'
      where "ReadUvarint rd = (Inr fl, rd')" and "q = LimitedReader rd' (int (unat fl))"
      by blast
    then show ?thesis by (simp add: min.commute)
  qed
  have two: "\<exists>h1 h2 q1 q2 rd1.
               HandleWrite v (Bytes P1) = Inr [h1, P1]
               \<and> HandleWrite v (Bytes P2) = Inr [h2, P2]
               \<and> HandleRead v (Reader \<lparr>pending = h1 @ P1 @ h2 @ P2 @ rest, closing = c\<rparr>) = Inr q1
               \<and> drain q1 = (P1, Some rd1)
               \<and> rd1 = \<lparr>pending = h2 @ P2 @ rest, closing = c\<rparr>
               \<and> HandleRead v (Reader rd1) = Inr q2
               \<and> drain q2 = (P2, Some \<lparr>pending = rest, closing = c\<rparr>)"
    if le1: "int (length P1) \<le> sint (maxFrameLength v)"
      and le2: "int (length P2) \<le> sint (maxFrameLength v)"
  proof -
    let ?h1 = "varint_bytes (word_of_nat (length P1))"
    let ?h2 = "varint_bytes (word_of_nat (length P2))"
    let ?rd1 = "\<lparr>pending = ?h2 @ P2 @ rest, closing = c\<rparr>"
    let ?q1 = "LimitedReader \<lparr>pending = P1 @ ?h2 @ P2 @ rest, closing = c\<rparr> (int (length P1))"
    let ?q2 = "LimitedReader \<lparr>pending = P2 @ rest, closing = c\<rparr> (int (length P2))"
    have w1: "HandleWrite v (Bytes P1) = Inr [?h1, P1]" by (rule HandleWrite_Bytes [OF le1])
    have w2: "HandleWrite v (Bytes P2) = Inr [?h2, P2]" by (rule HandleWrite_Bytes [OF le2])
    have r1: "HandleRead v (Reader \<lparr>pending = ?h1 @ P1 @ ?h2 @ P2 @ rest, closing = c\<rparr>) = Inr ?q1"
      by (rule HandleRead_Reader_frame [OF le1])
    have d1: "drain ?q1 = (P1, Some ?rd1)" by simp
    have r2: "HandleRead v (Reader ?rd1) = Inr ?q2"
      by (rule HandleRead_Reader_frame [OF le2])
    have d2: "drain ?q2 = (P2, Some \<lparr>pending = rest, closing = c\<rparr>)" by simp
    from w1 w2 r1 d1 r2 d2 show ?thesis by blast
  qed
  from bytes stream two show ?thesis by blast
qed

theorem C7_view_bounded_witness:
  "VarintLengthFieldCodec 100 = Inr codec100
   \<and> HandleRead codec100 (Bytes (0x05 # hello)) = Inr (BytesReader hello)
   \<and> fst (drain (BytesReader hello)) = drop (nat (snd (Uvarint (0x05 # hello)))) (0x05 # hello)
   \<and> length (fst (drain (BytesReader hello))) = unat (fst (Uvarint (0x05 # hello)))
   \<and> HandleRead codec100 (Reader \<lparr>pending = [0x05, 0x68], closing = EOF\<rparr>)
        = Inr (LimitedReader \<lparr>pending = [0x68], closing = EOF\<rparr> 5)
   \<and> (\<exists>fl rd'. ReadUvarint \<lparr>pending = [0x05, 0x68], closing = EOF\<rparr> = (Inr fl, rd')
          \<and> LimitedReader \<lparr>pending = [0x68], closing = EOF\<rparr> 5 = LimitedReader rd' (int (unat fl))
          \<and> drain (LimitedReader \<lparr>pending = [0x68], closing = EOF\<rparr> 5)
               = (take (unat fl) (pending rd'),
                  Some (rd'\<lparr>pending := drop (unat fl) (pending rd')\<rparr>))
          \<and> length (fst (drain (LimitedReader \<lparr>pending = [0x68], closing = EOF\<rparr> 5)))
               = min (unat fl) (length (pending rd')))
   \<and> int (length hello) \<le> sint (maxFrameLength codec100)
   \<and> int (length [1, 2, 3 :: byte]) \<le> sint (maxFrameLength codec100)
   \<and> (\<exists>h1 h2 q1 q2 rd1.
          HandleWrite codec100 (Bytes hello) = Inr [h1, hello]
          \<and> HandleWrite codec100 (Bytes [1, 2, 3]) = Inr [h2, [1, 2, 3]]
          \<and> HandleRead codec100
               (Reader \<lparr>pending = h1 @ hello @ h2 @ [1, 2, 3] @ [], closing = EOF\<rparr>) = Inr q1
          \<and> drain q1 = (hello, Some rd1)
          \<and> rd1 = \<lparr>pending = h2 @ [1, 2, 3] @ [], closing = EOF\<rparr>
          \<and> HandleRead codec100 (Reader rd1) = Inr q2
          \<and> drain q2 = ([1, 2, 3], Some \<lparr>pending = [], closing = EOF\<rparr>))"
proof -
  have h0: "VarintLengthFieldCodec 100 = Inr codec100"
    by (simp add: VarintLengthFieldCodec_def codec100_def)
  have h1: "HandleRead codec100 (Bytes (0x05 # hello)) = Inr (BytesReader hello)"
    by code_simp
  have h2: "HandleRead codec100 (Reader \<lparr>pending = [0x05, 0x68], closing = EOF\<rparr>)
        = Inr (LimitedReader \<lparr>pending = [0x68], closing = EOF\<rparr> 5)"
    by code_simp
  have h3: "int (length hello) \<le> sint (maxFrameLength codec100)
            \<and> int (length [1, 2, 3 :: byte]) \<le> sint (maxFrameLength codec100)"
    by (simp add: hello_def codec100_def)
  note T = C7_view_bounded [OF h0, of "0x05 # hello" "BytesReader hello"
      "\<lparr>pending = [0x05, 0x68], closing = EOF\<rparr>"
      "LimitedReader \<lparr>pending = [0x68], closing = EOF\<rparr> 5" hello "[1, 2, 3]" "[]" EOF]
  from T h0 h1 h2 h3 show ?thesis by blast
qed

end
